theory Spec2Isabelle
  imports Main "HOL-Library.AList" "HOL-Library.Sublist" "HOL-Library.Word"
begin

section \<open>The polling file watcher \<^verbatim>\<open>dev/dev-watch.py\<close>\<close>

text \<open>
  The script keeps one dictionary \<^verbatim>\<open>file_hashes\<close> from relative path to MD5 hex digest
  (or \<^verbatim>\<open>None\<close>), rebuilds it once per second with \<^verbatim>\<open>get_all_watched_files\<close>, and
  compares the two dictionaries inside the \<^verbatim>\<open>while True\<close> loop. The model below follows
  the script function by function; the file system, the hash function, the encoder of the
  terminal and the interrupt signal are the environment and appear as explicit arguments.
\<close>

subsection \<open>Data\<close>

type_synonym bytes = "8 word list"

text \<open>The value stored for a path: \<open>Some d\<close> is the hex digest \<open>d\<close>, \<open>None\<close> is Python's \<^verbatim>\<open>None\<close>.\<close>

type_synonym fingerprint = "string option"

text \<open>
  A Python \<^verbatim>\<open>dict\<close> iterates in insertion order, and the loop's output order depends on it,
  so a dictionary is an association list. Assigning to a key that is present keeps its
  position, assigning to a new key appends: this is \<^const>\<open>AList.update\<close>. Keys of a
  dictionary are unique, which is the predicate \<open>is_dict\<close>.
\<close>

type_synonym snapshot = "(string \<times> fingerprint) list"

definition is_dict :: "snapshot \<Rightarrow> bool" where
  "is_dict d = distinct (map fst d)"

text \<open>
  A directory tree. Reading a file gives its bytes or raises; a directory carries its
  entries in the order in which the operating system lists them.
\<close>

datatype os_error = PermissionError | FileNotFoundError | IsADirectoryError | OtherOSError

datatype node = File "os_error + bytes" | Dir "(string \<times> node) list"

text \<open>\<^verbatim>\<open>WATCH_EXTENSIONS\<close> and \<^verbatim>\<open>IGNORE_FILES\<close>; \<^verbatim>\<open>WATCH_DIR\<close> is the root of the tree.\<close>

record watch_set =
  watch_extensions :: "string list"
  ignore_files :: "string list"

definition WATCH_EXTENSIONS :: "string list" where
  "WATCH_EXTENSIONS = [''.js'', ''.html'', ''.css'', ''.json'']"

definition IGNORE_FILES :: "string list" where
  "IGNORE_FILES = [''dev-watch.py'', ''create-icons.py'']"

definition script_watch_set :: watch_set where
  "script_watch_set = \<lparr>watch_extensions = WATCH_EXTENSIONS, ignore_files = IGNORE_FILES\<rparr>"

subsection \<open>\<^verbatim>\<open>get_file_hash\<close>\<close>

text \<open>
  \<^verbatim>\<open>open(filepath, 'rb')\<close> followed by \<^verbatim>\<open>f.read()\<close>. Opening a directory raises
  \<^verbatim>\<open>IsADirectoryError\<close>.
\<close>

fun read_bytes :: "node \<Rightarrow> os_error + bytes" where
  "read_bytes (File r) = r"
| "read_bytes (Dir es) = Inl IsADirectoryError"

text \<open>
  \<^verbatim>\<open>hashlib.md5(...).hexdigest()\<close> is the argument \<open>md5\<close>. Every \<^verbatim>\<open>Exception\<close> raised inside
  the \<^verbatim>\<open>try\<close> block is caught and turned into \<^verbatim>\<open>None\<close>.
\<close>

definition get_file_hash :: "(bytes \<Rightarrow> string) \<Rightarrow> node \<Rightarrow> fingerprint" where
  "get_file_hash md5 filepath =
     (case read_bytes filepath of Inr content \<Rightarrow> Some (md5 content) | Inl e \<Rightarrow> None)"

subsection \<open>\<^verbatim>\<open>Path.rglob\<close>, \<^verbatim>\<open>relative_to\<close> and \<^verbatim>\<open>str\<close>\<close>

text \<open>
  \<open>walk pre t\<close> lists every entry below \<open>t\<close> with its path (the list of its components,
  after the prefix \<open>pre\<close>): the entries of a directory first, then the entries below each
  of its subdirectories in turn. \<^verbatim>\<open>rglob('*' + ext)\<close> keeps the entries whose name ends
  with \<open>ext\<close>; it yields directories as well as files, and names that start with a dot.
  The extensions are taken as plain text, as those of \<^verbatim>\<open>WATCH_EXTENSIONS\<close> are (no
  wildcard characters); names are compared case-sensitively and paths are joined with a
  slash, as on POSIX; there are no symbolic links.
\<close>

fun walk :: "string list \<Rightarrow> node \<Rightarrow> (string list \<times> node) list"
  and walk_entries :: "string list \<Rightarrow> (string \<times> node) list \<Rightarrow> (string list \<times> node) list" where
  "walk pre (File c) = []"
| "walk pre (Dir es) = map (\<lambda>(n, x). (pre @ [n], x)) es @ walk_entries pre es"
| "walk_entries pre [] = []"
| "walk_entries pre ((n, x) # es) = walk (pre @ [n]) x @ walk_entries pre es"

definition rglob :: "string \<Rightarrow> node \<Rightarrow> (string list \<times> node) list" where
  "rglob ext t = filter (\<lambda>(p, x). suffix ext (last p)) (walk [] t)"

text \<open>\<^verbatim>\<open>str(rel_path)\<close>: the components joined by a slash.\<close>

fun path_str :: "string list \<Rightarrow> string" where
  "path_str [] = ''.''"
| "path_str [n] = n"
| "path_str (n # ns) = n @ ''/'' @ path_str ns"

subsection \<open>\<^verbatim>\<open>get_all_watched_files\<close>\<close>

definition scan_step ::
  "(bytes \<Rightarrow> string) \<Rightarrow> watch_set \<Rightarrow> string list \<times> node \<Rightarrow> snapshot \<Rightarrow> snapshot" where
  "scan_step md5 W = (\<lambda>(filepath, x) files.
     if last filepath \<in> set (ignore_files W) then files
     else AList.update (path_str filepath) (get_file_hash md5 x) files)"

definition scan_ext ::
  "(bytes \<Rightarrow> string) \<Rightarrow> watch_set \<Rightarrow> node \<Rightarrow> string \<Rightarrow> snapshot \<Rightarrow> snapshot" where
  "scan_ext md5 W t ext files = fold (scan_step md5 W) (rglob ext t) files"

definition get_all_watched_files ::
  "(bytes \<Rightarrow> string) \<Rightarrow> watch_set \<Rightarrow> node \<Rightarrow> snapshot" where
  "get_all_watched_files md5 W t = fold (scan_ext md5 W t) (watch_extensions W) []"

text \<open>The entries that a scan stores, in the order in which it stores them.\<close>

definition scanned :: "watch_set \<Rightarrow> node \<Rightarrow> (string list \<times> node) list" where
  "scanned W t = filter (\<lambda>(p, x). last p \<notin> set (ignore_files W))
                   (concat (map (\<lambda>ext. rglob ext t) (watch_extensions W)))"

definition stored :: "(bytes \<Rightarrow> string) \<Rightarrow> string list \<times> node \<Rightarrow> string \<times> fingerprint" where
  "stored md5 = (\<lambda>(p, x). (path_str p, get_file_hash md5 x))"

subsection \<open>The directory as the claims describe it\<close>

text \<open>
  Path resolution from the root: \<open>resolve t p\<close> is the entry that the path with the
  components \<open>p\<close> names below \<open>t\<close>.
\<close>

fun resolve :: "node \<Rightarrow> string list \<Rightarrow> node option" where
  "resolve t [] = Some t"
| "resolve (File r) (n # p) = None"
| "resolve (Dir es) (n # p) = (case map_of es n of None \<Rightarrow> None | Some x \<Rightarrow> resolve x p)"

text \<open>
  A well-formed tree: the names in a directory are pairwise different, not empty and free
  of slashes.
\<close>

definition valid_name :: "string \<Rightarrow> bool" where
  "valid_name n = (n \<noteq> [] \<and> CHR ''/'' \<notin> set n)"

fun wf_node :: "node \<Rightarrow> bool"
  and wf_entries :: "(string \<times> node) list \<Rightarrow> bool" where
  "wf_node (File r) = True"
| "wf_node (Dir es) = (distinct (map fst es) \<and> wf_entries es)"
| "wf_entries [] = True"
| "wf_entries ((n, x) # es) = (valid_name n \<and> wf_node x \<and> wf_entries es)"

text \<open>
  A path is watched when its last component ends with one of the extensions and is not one
  of the ignored names.
\<close>

definition watched :: "watch_set \<Rightarrow> string list \<Rightarrow> bool" where
  "watched W p = ((\<exists>ext \<in> set (watch_extensions W). suffix ext (last p))
                  \<and> last p \<notin> set (ignore_files W))"

text \<open>
  What a directory state consists of for the watcher: the paths below the root, each with
  the result of reading it (its bytes or the error raised). Two trees with the same
  \<open>read_results\<close> hold the same files with the same contents and the same readability;
  they may list their entries in a different order.
\<close>

definition read_results :: "node \<Rightarrow> (string list \<times> (os_error + bytes)) set" where
  "read_results t = set (map (\<lambda>(p, x). (p, read_bytes x)) (walk [] t))"

fun is_file :: "node \<Rightarrow> bool" where
  "is_file (File r) = True"
| "is_file (Dir es) = False"

subsection \<open>The comparison inside the loop\<close>

text \<open>
  The two \<^verbatim>\<open>for\<close> loops that fill \<^verbatim>\<open>changed_files\<close>. The first appends the path itself,
  the second appends the path followed by \<^verbatim>\<open>" (deleted)"\<close>.
\<close>

definition modified_step :: "snapshot \<Rightarrow> string \<times> fingerprint \<Rightarrow> string list \<Rightarrow> string list" where
  "modified_step file_hashes = (\<lambda>(filepath, hash_val) changed.
     if filepath \<notin> set (map fst file_hashes) \<or> map_of file_hashes filepath \<noteq> Some hash_val
     then changed @ [filepath] else changed)"

definition check_modified :: "snapshot \<Rightarrow> snapshot \<Rightarrow> string list \<Rightarrow> string list" where
  "check_modified file_hashes current_hashes changed =
     fold (modified_step file_hashes) current_hashes changed"

text \<open>The f-string \<^verbatim>\<open>f"{filepath} (deleted)"\<close>.\<close>

definition deleted_label :: "string \<Rightarrow> string" where
  "deleted_label filepath = filepath @ '' (deleted)''"

definition deleted_step :: "snapshot \<Rightarrow> string \<Rightarrow> string list \<Rightarrow> string list" where
  "deleted_step current_hashes = (\<lambda>filepath changed.
     if filepath \<notin> set (map fst current_hashes)
     then changed @ [deleted_label filepath] else changed)"

definition check_deleted :: "snapshot \<Rightarrow> snapshot \<Rightarrow> string list \<Rightarrow> string list" where
  "check_deleted file_hashes current_hashes changed =
     fold (deleted_step current_hashes) (map fst file_hashes) changed"

definition changed_files :: "snapshot \<Rightarrow> snapshot \<Rightarrow> string list" where
  "changed_files file_hashes current_hashes =
     check_deleted file_hashes current_hashes (check_modified file_hashes current_hashes [])"

subsection \<open>Printing\<close>

text \<open>
  An exception that can leave a statement of the loop: the interrupt signal, the error of
  \<^verbatim>\<open>print\<close> for a text that the terminal cannot encode, an error of the operating system.
\<close>

datatype exn = KeyboardInterrupt | UnicodeEncodeError | OSError os_error

text \<open>
  The state of the loop is the global \<^verbatim>\<open>file_hashes\<close> and what has been printed since the
  loop was entered, one string for each call of \<^verbatim>\<open>print\<close> (the text without the newline
  that \<^verbatim>\<open>print\<close> adds). The characters outside ASCII are written as their UTF-8 bytes.
\<close>

record watcher =
  file_hashes :: snapshot
  stdout :: "string list"

text \<open>
  \<^verbatim>\<open>print(s)\<close> on a terminal whose encoder accepts the texts in \<open>encodable\<close>: the text
  is written, or \<^verbatim>\<open>UnicodeEncodeError\<close> is raised and nothing of it is written.
\<close>

definition py_print :: "(string \<Rightarrow> bool) \<Rightarrow> string \<Rightarrow> watcher \<Rightarrow> exn + watcher" where
  "py_print encodable s st =
     (if encodable s then Inr (st\<lparr>stdout := stdout st @ [s]\<rparr>) else Inl UnicodeEncodeError)"

text \<open>
  The encoder of a terminal with strict UTF-8: it accepts the texts that are well-formed
  UTF-8. The bytes of a file name that are not well-formed UTF-8 reach Python as lone
  surrogates, which this encoder refuses.
\<close>

datatype utf8_state = Boundary | Continuation nat nat nat | Malformed

fun utf8_step :: "utf8_state \<Rightarrow> nat \<Rightarrow> utf8_state" where
  "utf8_step Malformed b = Malformed"
| "utf8_step (Continuation n lo hi) b =
     (if lo \<le> b \<and> b \<le> hi then (if n = 1 then Boundary else Continuation (n - 1) 0x80 0xBF)
      else Malformed)"
| "utf8_step Boundary b =
     (if b < 0x80 then Boundary
      else if 0xC2 \<le> b \<and> b \<le> 0xDF then Continuation 1 0x80 0xBF
      else if b = 0xE0 then Continuation 2 0xA0 0xBF
      else if b = 0xED then Continuation 2 0x80 0x9F
      else if 0xE1 \<le> b \<and> b \<le> 0xEF then Continuation 2 0x80 0xBF
      else if b = 0xF0 then Continuation 3 0x90 0xBF
      else if 0xF1 \<le> b \<and> b \<le> 0xF3 then Continuation 3 0x80 0xBF
      else if b = 0xF4 then Continuation 3 0x80 0x8F
      else Malformed)"

definition utf8_encodable :: "string \<Rightarrow> bool" where
  "utf8_encodable s = (fold (\<lambda>c q. utf8_step q (of_char c)) s Boundary = Boundary)"

subsection \<open>One pass of the \<^verbatim>\<open>while True\<close> loop\<close>

definition detected_line :: string where
  "detected_line = [CHR 0xF0, CHR 0x9F, CHR 0x94, CHR 0x94] @ '' Detected changes in:''"

definition bullet_line :: "string \<Rightarrow> string" where
  "bullet_line filepath = ''   '' @ [CHR 0xE2, CHR 0x80, CHR 0xA2] @ '' '' @ filepath"

definition reload_lines :: "string list" where
  "reload_lines =
    [CHR 0x0A # replicate 50 (CHR ''=''),
     [CHR 0xF0, CHR 0x9F, CHR 0x94, CHR 0x84] @ '' FILES CHANGED - RELOAD NEEDED'',
     replicate 50 (CHR ''=''),
     [CHR 0x0A, CHR 0xF0, CHR 0x9F, CHR 0x93, CHR 0x8C] @ '' To reload your extension:'',
     ''   1. Open chrome://extensions'',
     ''   2. Click the reload icon ('' @ [CHR 0xF0, CHR 0x9F, CHR 0x94, CHR 0x84] @ '') for ''
        @ [CHR 0x27] @ ''Klue'' @ [CHR 0x27],
     [CHR 0x0A, CHR 0xF0, CHR 0x9F, CHR 0x92, CHR 0xA1]
        @ '' TIP: Keep the extensions page open in a pinned tab'',
     ''   for quick reloading during development'',
     CHR 0x0A # replicate 50 (CHR ''-'') @ [CHR 0x0A]]"

text \<open>
  The statements of a pass that have an effect: a call of \<^verbatim>\<open>print\<close>, and the assignment
  \<^verbatim>\<open>file_hashes = current_hashes\<close>.
\<close>

datatype stmt = Print string | StoreHashes snapshot

fun exec_stmt :: "(string \<Rightarrow> bool) \<Rightarrow> stmt \<Rightarrow> watcher \<Rightarrow> exn + watcher" where
  "exec_stmt encodable (Print s) st = py_print encodable s st"
| "exec_stmt encodable (StoreHashes current_hashes) st = Inr (st\<lparr>file_hashes := current_hashes\<rparr>)"

text \<open>
  The statements run in order until one raises. \<open>pending = Some n\<close> says that the
  interrupt signal arrives during this pass, when \<open>n\<close> of its statements have completed
  (or after the last one, when there are no more than \<open>n\<close>); \<^verbatim>\<open>KeyboardInterrupt\<close> is
  raised there. The result is the state reached and the exception that leaves the pass,
  if any.
\<close>

fun exec :: "(string \<Rightarrow> bool) \<Rightarrow> nat option \<Rightarrow> stmt list \<Rightarrow> watcher \<Rightarrow> watcher \<times> exn option" where
  "exec encodable None [] st = (st, None)"
| "exec encodable (Some n) [] st = (st, Some KeyboardInterrupt)"
| "exec encodable pending (c # cs) st =
     (if pending = Some 0 then (st, Some KeyboardInterrupt)
      else case exec_stmt encodable c st of
             Inl e \<Rightarrow> (st, Some e)
           | Inr st' \<Rightarrow> exec encodable (map_option (\<lambda>n. n - 1) pending) cs st')"


definition print_reload_instructions :: "stmt list" where
  "print_reload_instructions = map Print reload_lines"

text \<open>The statements inside \<^verbatim>\<open>if changed_files:\<close>.\<close>

definition report :: "string list \<Rightarrow> snapshot \<Rightarrow> stmt list" where
  "report changed current_hashes =
     Print detected_line # map (\<lambda>filepath. Print (bullet_line filepath)) changed
       @ print_reload_instructions @ [StoreHashes current_hashes]"

text \<open>
  The body of the loop after \<^verbatim>\<open>time.sleep(1)\<close> has returned, run on the directory tree
  \<open>fs\<close> found at that moment.
\<close>

definition cycle ::
  "(string \<Rightarrow> bool) \<Rightarrow> (bytes \<Rightarrow> string) \<Rightarrow> watch_set \<Rightarrow> node \<Rightarrow> nat option \<Rightarrow> watcher
     \<Rightarrow> watcher \<times> exn option" where
  "cycle encodable md5 W fs pending st =
     (let current_hashes = get_all_watched_files md5 W fs;
          changed = changed_files (file_hashes st) current_hashes
      in exec encodable pending (if changed \<noteq> [] then report changed current_hashes else []) st)"

subsection \<open>The loop and the interrupt handler\<close>





definition farewell_line :: string where
  "farewell_line = [CHR 0x0A, CHR 0x0A, CHR 0xF0, CHR 0x9F, CHR 0x91, CHR 0x8B]
     @ '' Hot reload watcher stopped''"





subsection \<open>A stand-in for the hash function\<close>

text \<open>
  The examples below need a value for the argument \<open>md5\<close>. Their files all have the
  one-byte content \<^verbatim>\<open>x\<close>, whose MD5 digest is the value of \<open>toy_md5\<close>.
\<close>

definition toy_md5 :: "bytes \<Rightarrow> string" where
  "toy_md5 content = ''9dd4e461268c8034f5c8564e155c67a6''"

section \<open>Properties of the comparison\<close>

lemma check_modified_filter:
  "check_modified prev cur acc =
     acc @ map fst (filter (\<lambda>(p, h). map_of prev p \<noteq> Some h) cur)"
  unfolding check_modified_def
proof (induction cur arbitrary: acc)
  case Nil
  show ?case by simp
next
  case (Cons e cur)
  obtain p h where e: "e = (p, h)" by (cases e)
  have "(p \<notin> fst ` set prev \<or> map_of prev p \<noteq> Some h) = (map_of prev p \<noteq> Some h)"
    by (cases "map_of prev p") (auto simp: map_of_eq_None_iff dest: map_of_SomeD intro: rev_image_eqI)
  then show ?case
    using Cons.IH by (simp add: e modified_step_def)
qed

lemma check_deleted_filter:
  "check_deleted prev cur acc =
     acc @ map deleted_label (filter (\<lambda>p. p \<notin> fst ` set cur) (map fst prev))"
  unfolding check_deleted_def
proof (induction prev arbitrary: acc)
  case Nil
  show ?case by simp
next
  case (Cons e prev)
  show ?case
    using Cons.IH by (simp add: deleted_step_def)
qed

lemma key_in: "(p, h) \<in> set d \<Longrightarrow> p \<in> fst ` set d"
  by force

lemma deleted_label_inj: "deleted_label p = deleted_label q \<longleftrightarrow> p = q"
  by (simp add: deleted_label_def)

lemma in_check_modified:
  "p \<in> set (check_modified previous current []) \<longleftrightarrow>
     (\<exists>h. (p, h) \<in> set current \<and> map_of previous p \<noteq> Some h)"
  by (force simp: check_modified_filter)

lemma in_check_deleted:
  "deleted_label p \<in> set (check_deleted previous current []) \<longleftrightarrow>
     p \<in> fst ` set previous \<and> p \<notin> fst ` set current"
proof -
  have "set (check_deleted previous current []) =
        deleted_label ` {q \<in> fst ` set previous. q \<notin> fst ` set current}"
    by (simp add: check_deleted_filter)
  then show ?thesis
    by (auto simp: deleted_label_inj dest: key_in)
qed

lemma dict_value_unique:
  assumes "is_dict d" and "map_of d p = Some h" and "(p, h') \<in> set d"
  shows "h' = h"
  using assms by (simp add: is_dict_def)

text \<open>The test of the first loop is the single comparison \<open>map_of previous p \<noteq> Some h\<close>.\<close>

lemma modified_test:
  "(p \<notin> set (map fst previous) \<or> map_of previous p \<noteq> Some h) = (map_of previous p \<noteq> Some h)"
proof (cases "map_of previous p")
  case None
  then show ?thesis by simp
next
  case (Some v)
  then have "(p, v) \<in> set previous" by (rule map_of_SomeD)
  then have "p \<in> fst ` set previous" by (rule key_in)
  then show ?thesis by simp
qed

lemma changed_files_split:
  "changed_files previous current =
     map fst (filter (\<lambda>(p, h). map_of previous p \<noteq> Some h) current)
     @ map deleted_label (filter (\<lambda>p. p \<notin> fst ` set current) (map fst previous))"
  by (simp add: changed_files_def check_deleted_filter check_modified_filter)

lemma changed_files_Nil_iff:
  "changed_files previous current = [] \<longleftrightarrow>
     (\<forall>(p, h) \<in> set current. map_of previous p = Some h)
     \<and> fst ` set previous \<subseteq> fst ` set current"
  unfolding changed_files_split
  by (auto simp: filter_empty_conv)


subsection \<open>Modified records\<close>

text \<open>
  Claim C2. For a path \<open>p\<close> that the current dictionary maps to \<open>h\<close>, the first loop
  appends \<open>p\<close> exactly when \<open>p\<close> is not a key of the previous dictionary or the value
  stored there differs from \<open>h\<close>. A new file and a changed file give the same record, the
  bare path.
\<close>

theorem modified_record_iff:
  assumes "is_dict current" and "map_of current p = Some h"
  shows "p \<in> set (check_modified previous current []) \<longleftrightarrow>
         (p \<notin> set (map fst previous) \<or> map_of previous p \<noteq> Some h)"
proof -
  have in_cur: "(p, h) \<in> set current"
    using assms(2) by (rule map_of_SomeD)
  have "(\<exists>h'. (p, h') \<in> set current \<and> map_of previous p \<noteq> Some h') \<longleftrightarrow> map_of previous p \<noteq> Some h"
    using in_cur dict_value_unique [OF assms] by blast
  then show ?thesis
    unfolding modified_test in_check_modified .
qed

text \<open>The file \<^verbatim>\<open>a.js\<close> added between two snapshots is reported as modified.\<close>

theorem modified_record_iff_witness:
  "is_dict [(''a.js'', Some ''9dd4e461268c8034f5c8564e155c67a6'')]
   \<and> map_of [(''a.js'', Some ''9dd4e461268c8034f5c8564e155c67a6'')] ''a.js''
       = Some (Some ''9dd4e461268c8034f5c8564e155c67a6'')
   \<and> ''a.js'' \<in> set (check_modified [] [(''a.js'', Some ''9dd4e461268c8034f5c8564e155c67a6'')] [])
   \<and> changed_files [] [(''a.js'', Some ''9dd4e461268c8034f5c8564e155c67a6'')] = [''a.js'']"
  using modified_record_iff [of "[(''a.js'', Some ''9dd4e461268c8034f5c8564e155c67a6'')]"
      "''a.js''" "Some ''9dd4e461268c8034f5c8564e155c67a6''" "[]"]
  by (simp add: is_dict_def changed_files_split)

subsection \<open>Deleted records and the order of the list\<close>

text \<open>
  Claim C3. \<^verbatim>\<open>changed_files\<close> is the list of the modified paths, in the order of the
  current dictionary, followed by one deleted record for each key of the previous dictionary
  that is not a key of the current one, in the order of the previous dictionary.
\<close>

theorem changed_files_order:
  "changed_files previous current =
     map fst (filter (\<lambda>(p, h). p \<notin> set (map fst previous) \<or> map_of previous p \<noteq> Some h) current)
     @ map deleted_label (filter (\<lambda>p. p \<notin> set (map fst current)) (map fst previous))"
  unfolding modified_test
  by (simp add: changed_files_split)

text \<open>Deleting \<^verbatim>\<open>c.html\<close> gives the single record \<^verbatim>\<open>c.html (deleted)\<close>.\<close>

theorem changed_files_order_witness:
  "changed_files [(''c.html'', Some ''0cc175b9c0f1b6a831c399e269772661'')] []
     = [''c.html (deleted)'']"
  using changed_files_order [of "[(''c.html'', Some ''0cc175b9c0f1b6a831c399e269772661'')]" "[]"]
  by (simp add: deleted_label_def)

subsection \<open>Absent fingerprints\<close>

text \<open>
  Claim C5. For a path that is a key of both dictionaries: when both store \<^verbatim>\<open>None\<close> neither
  loop appends a record for it; when exactly one of them stores \<^verbatim>\<open>None\<close> the first loop
  appends the path.
\<close>

theorem absent_fingerprints:
  assumes "is_dict current" and "map_of previous p = Some a" and "map_of current p = Some b"
  shows "(a = None \<and> b = None \<longrightarrow>
            p \<notin> set (check_modified previous current [])
            \<and> deleted_label p \<notin> set (check_deleted previous current []))
       \<and> ((a = None) \<noteq> (b = None) \<longrightarrow> p \<in> set (check_modified previous current []))"
proof -
  have in_cur: "(p, b) \<in> set current"
    using assms(3) by (rule map_of_SomeD)
  then have key: "p \<in> fst ` set current"
    by (rule key_in)
  have "(\<exists>h'. (p, h') \<in> set current \<and> Some a \<noteq> Some h') \<longleftrightarrow> a \<noteq> b"
    using in_cur dict_value_unique [OF assms(1,3)] by blast
  then have m: "p \<in> set (check_modified previous current []) \<longleftrightarrow> a \<noteq> b"
    unfolding in_check_modified assms(2) .
  have d: "deleted_label p \<notin> set (check_deleted previous current [])"
    using key unfolding in_check_deleted by simp
  show ?thesis using m d by auto
qed

theorem absent_fingerprints_witness:
  "(is_dict [(''a.js'', None)] \<and> map_of [(''a.js'', None)] ''a.js'' = Some None
    \<and> ''a.js'' \<notin> set (check_modified [(''a.js'', None)] [(''a.js'', None)] [])
    \<and> deleted_label ''a.js'' \<notin> set (check_deleted [(''a.js'', None)] [(''a.js'', None)] []))
   \<and> (is_dict [(''a.js'', Some ''0cc175b9c0f1b6a831c399e269772661'')]
    \<and> map_of [(''a.js'', Some ''0cc175b9c0f1b6a831c399e269772661'')] ''a.js''
        = Some (Some ''0cc175b9c0f1b6a831c399e269772661'')
    \<and> ''a.js'' \<in> set (check_modified [(''a.js'', None)]
                        [(''a.js'', Some ''0cc175b9c0f1b6a831c399e269772661'')] []))"
  using absent_fingerprints [of "[(''a.js'', None)]" "[(''a.js'', None)]" "''a.js''" None None]
    absent_fingerprints [of "[(''a.js'', Some ''0cc175b9c0f1b6a831c399e269772661'')]"
      "[(''a.js'', None)]" "''a.js''" None "Some ''0cc175b9c0f1b6a831c399e269772661''"]
  by (simp add: is_dict_def)

subsection \<open>A snapshot compared with itself\<close>

text \<open>Claim C7. Comparing a dictionary with itself gives the empty list.\<close>

theorem diff_self_empty: "is_dict S \<Longrightarrow> changed_files S S = []"
  unfolding changed_files_Nil_iff
  by (auto simp: is_dict_def)

theorem diff_self_empty_witness:
  "is_dict [(''a.js'', Some ''0cc175b9c0f1b6a831c399e269772661''), (''b.css'', None)]
   \<and> changed_files [(''a.js'', Some ''0cc175b9c0f1b6a831c399e269772661''), (''b.css'', None)]
        [(''a.js'', Some ''0cc175b9c0f1b6a831c399e269772661''), (''b.css'', None)] = []"
  using diff_self_empty [of "[(''a.js'', Some ''0cc175b9c0f1b6a831c399e269772661''), (''b.css'', None)]"]
  by (simp add: is_dict_def)

section \<open>Properties of the scan\<close>

lemma wf_entries_iff: "wf_entries es \<longleftrightarrow> (\<forall>(n, x) \<in> set es. valid_name n \<and> wf_node x)"
proof (induction es)
  case Nil
  show ?case by simp
next
  case (Cons e es)
  obtain n x where "e = (n, x)" by (cases e)
  then show ?case using Cons.IH by simp
qed

lemma resolve_Dir_Cons:
  assumes "distinct (map fst es)"
  shows "resolve (Dir es) (n # p) = Some x \<longleftrightarrow> (\<exists>d. (n, d) \<in> set es \<and> resolve d p = Some x)"
proof (cases "map_of es n")
  case None
  then have "\<And>d. (n, d) \<notin> set es"
    by (metis key_in map_of_eq_None_iff)
  then show ?thesis using None by simp
next
  case (Some d)
  then have "\<And>d'. (n, d') \<in> set es \<longleftrightarrow> d' = d"
    using assms by (auto dest: eq_key_imp_eq_value)
  then show ?thesis using Some by simp
qed

lemma walk_mem:
  "wf_node t \<Longrightarrow>
     (q, x) \<in> set (walk pre t) \<longleftrightarrow> (\<exists>p. q = pre @ p \<and> p \<noteq> [] \<and> resolve t p = Some x)"
  "wf_entries es \<Longrightarrow>
     (q, x) \<in> set (walk_entries pre es) \<longleftrightarrow>
       (\<exists>n d p. (n, d) \<in> set es \<and> q = pre @ n # p \<and> p \<noteq> [] \<and> resolve d p = Some x)"
proof (induction pre t and pre es arbitrary: q x and q x rule: walk_walk_entries.induct)
  case (1 pre c)
  show ?case
    by (auto simp: neq_Nil_conv)
next
  case (2 pre es)
  then have d: "distinct (map fst es)" and w: "wf_entries es"
    by simp_all
  have own: "(q, x) \<in> set (map (\<lambda>(n, x). (pre @ [n], x)) es) \<longleftrightarrow> (\<exists>n. q = pre @ [n] \<and> (n, x) \<in> set es)"
    by force
  have below: "(q, x) \<in> set (walk_entries pre es) \<longleftrightarrow>
       (\<exists>n d p. (n, d) \<in> set es \<and> q = pre @ n # p \<and> p \<noteq> [] \<and> resolve d p = Some x)"
    using "2.IH" [OF w] .
  have "(\<exists>p. q = pre @ p \<and> p \<noteq> [] \<and> resolve (Dir es) p = Some x) \<longleftrightarrow>
        (\<exists>n p. q = pre @ n # p \<and> (\<exists>d. (n, d) \<in> set es \<and> resolve d p = Some x))"
    by (auto simp add: neq_Nil_conv resolve_Dir_Cons [OF d] simp del: resolve.simps(3))
  also have "\<dots> \<longleftrightarrow> (\<exists>n. q = pre @ [n] \<and> (n, x) \<in> set es)
      \<or> (\<exists>n d p. (n, d) \<in> set es \<and> q = pre @ n # p \<and> p \<noteq> [] \<and> resolve d p = Some x)"
  proof
    assume "\<exists>n p. q = pre @ n # p \<and> (\<exists>d. (n, d) \<in> set es \<and> resolve d p = Some x)"
    then obtain n p d where q: "q = pre @ n # p" and nd: "(n, d) \<in> set es"
      and r: "resolve d p = Some x"
      by blast
    show "(\<exists>n. q = pre @ [n] \<and> (n, x) \<in> set es)
      \<or> (\<exists>n d p. (n, d) \<in> set es \<and> q = pre @ n # p \<and> p \<noteq> [] \<and> resolve d p = Some x)"
    proof (cases "p = []")
      case True
      with r have "d = x" by simp
      with q nd True show ?thesis by blast
    next
      case False
      with q nd r show ?thesis by blast
    qed
  next
    assume "(\<exists>n. q = pre @ [n] \<and> (n, x) \<in> set es)
      \<or> (\<exists>n d p. (n, d) \<in> set es \<and> q = pre @ n # p \<and> p \<noteq> [] \<and> resolve d p = Some x)"
    then show "\<exists>n p. q = pre @ n # p \<and> (\<exists>d. (n, d) \<in> set es \<and> resolve d p = Some x)"
    proof
      assume "\<exists>n. q = pre @ [n] \<and> (n, x) \<in> set es"
      then obtain n where "q = pre @ n # []" and "(n, x) \<in> set es" and "resolve x [] = Some x"
        by auto
      then show ?thesis by blast
    next
      assume "\<exists>n d p. (n, d) \<in> set es \<and> q = pre @ n # p \<and> p \<noteq> [] \<and> resolve d p = Some x"
      then show ?thesis by blast
    qed
  qed
  finally show ?case
    using own below by simp
next
  case (3 pre)
  show ?case by simp
next
  case (4 pre n y es)
  then have wy: "wf_node y" and wes: "wf_entries es"
    by simp_all
  have a: "(q, x) \<in> set (walk (pre @ [n]) y) \<longleftrightarrow>
           (\<exists>p. q = pre @ n # p \<and> p \<noteq> [] \<and> resolve y p = Some x)"
    using "4.IH"(1) [OF wy] by simp
  have b: "(q, x) \<in> set (walk_entries pre es) \<longleftrightarrow>
       (\<exists>m d p. (m, d) \<in> set es \<and> q = pre @ m # p \<and> p \<noteq> [] \<and> resolve d p = Some x)"
    using "4.IH"(2) [OF wes] .
  show ?case
    unfolding walk_entries.simps set_append Un_iff a b
    by auto
qed

lemma wf_entries_member:
  "wf_entries es \<Longrightarrow> (n, d) \<in> set es \<Longrightarrow> valid_name n \<and> wf_node d"
  unfolding wf_entries_iff by blast

lemma resolve_valid:
  "wf_node t \<Longrightarrow> resolve t p = Some x \<Longrightarrow> (\<forall>n \<in> set p. valid_name n)"
proof (induction p arbitrary: t)
  case Nil
  show ?case by simp
next
  case (Cons n p)
  show ?case
  proof (cases t)
    case (File r)
    with Cons.prems show ?thesis by simp
  next
    case (Dir es)
    with Cons.prems have d: "distinct (map fst es)" and w: "wf_entries es"
      by simp_all
    from Cons.prems Dir have "resolve (Dir es) (n # p) = Some x"
      by simp
    then obtain y where "(n, y) \<in> set es" and r: "resolve y p = Some x"
      unfolding resolve_Dir_Cons [OF d] by blast
    then have "valid_name n" and "wf_node y"
      using wf_entries_member [OF w] by blast+
    then show ?thesis
      using Cons.IH r by simp
  qed
qed

lemma path_str_Cons:
  "path_str (n # ns) = (if ns = [] then n else n @ CHR ''/'' # path_str ns)"
  by (cases ns) simp_all

lemma path_str_head:
  assumes "valid_name n"
  shows "takeWhile (\<lambda>c. c \<noteq> CHR ''/'') (path_str (n # ns)) = n"
    and "dropWhile (\<lambda>c. c \<noteq> CHR ''/'') (path_str (n # ns))
           = (if ns = [] then [] else CHR ''/'' # path_str ns)"
proof -
  have all: "\<And>c. c \<in> set n \<Longrightarrow> c \<noteq> CHR ''/''"
    using assms by (auto simp: valid_name_def)
  show "takeWhile (\<lambda>c. c \<noteq> CHR ''/'') (path_str (n # ns)) = n"
    unfolding path_str_Cons using all by (simp add: takeWhile_append2)
  show "dropWhile (\<lambda>c. c \<noteq> CHR ''/'') (path_str (n # ns))
           = (if ns = [] then [] else CHR ''/'' # path_str ns)"
    unfolding path_str_Cons using all by (simp add: dropWhile_append2)
qed

lemma path_str_inj:
  assumes "\<forall>n \<in> set p. valid_name n" and "\<forall>n \<in> set q. valid_name n"
    and "p \<noteq> []" and "q \<noteq> []" and "path_str p = path_str q"
  shows "p = q"
  using assms
proof (induction p arbitrary: q)
  case Nil
  then show ?case by simp
next
  case (Cons n ns)
  from Cons.prems obtain m ms where q: "q = m # ms"
    by (cases q) auto
  have vn: "valid_name n" and vm: "valid_name m"
    using Cons.prems q by simp_all
  have eq: "path_str (n # ns) = path_str (m # ms)"
    using Cons.prems q by simp
  have "takeWhile (\<lambda>c. c \<noteq> CHR ''/'') (path_str (n # ns))
        = takeWhile (\<lambda>c. c \<noteq> CHR ''/'') (path_str (m # ms))"
    using eq by simp
  then have nm: "n = m"
    unfolding path_str_head(1) [OF vn] path_str_head(1) [OF vm] .
  have "dropWhile (\<lambda>c. c \<noteq> CHR ''/'') (path_str (n # ns))
        = dropWhile (\<lambda>c. c \<noteq> CHR ''/'') (path_str (m # ms))"
    using eq by simp
  then have rest: "(if ns = [] then [] else CHR ''/'' # path_str ns)
                 = (if ms = [] then [] else CHR ''/'' # path_str ms)"
    unfolding path_str_head(2) [OF vn] path_str_head(2) [OF vm] .
  show ?case
  proof (cases "ns = []")
    case True
    with rest have "ms = []" by (simp split: if_splits)
    with True nm q show ?thesis by simp
  next
    case False
    with rest have ms: "ms \<noteq> []" and "path_str ns = path_str ms"
      by (simp_all split: if_splits)
    then have "ns = ms"
      using Cons.IH [of ms] Cons.prems q False by simp
    with nm q show ?thesis by simp
  qed
qed

lemma fold_update_map_of:
  "map_of (fold (\<lambda>(k, v). AList.update k v) kvs acc) = map_of acc ++ map_of (rev kvs)"
proof (induction kvs arbitrary: acc)
  case Nil
  show ?case by simp
next
  case (Cons e kvs)
  obtain k v where e: "e = (k, v)" by (cases e)
  have "map_of (fold (\<lambda>(k, v). AList.update k v) (e # kvs) acc)
        = map_of (AList.update k v acc) ++ map_of (rev kvs)"
    using Cons.IH [of "AList.update k v acc"] by (simp add: e)
  also have "\<dots> = (map_of acc ++ [k \<mapsto> v]) ++ map_of (rev kvs)"
    by (simp add: update_conv')
  also have "\<dots> = map_of acc ++ map_of (rev (e # kvs))"
    by (simp add: e)
  finally show ?case .
qed


lemma map_of_rev_functional:
  assumes "\<And>v'. (k, v') \<in> set l \<Longrightarrow> v' = v" and "(k, v) \<in> set l"
  shows "map_of (rev l) k = Some v"
proof -
  have "(k, v) \<in> set (rev l)"
    using assms(2) by simp
  then have "\<exists>v'. map_of (rev l) k = Some v'"
    by (rule weak_map_of_SomeI)
  then obtain v' where v': "map_of (rev l) k = Some v'" ..
  then have "(k, v') \<in> set (rev l)"
    by (rule map_of_SomeD)
  then have "v' = v"
    using assms(1) by simp
  with v' show ?thesis by simp
qed

lemma fold_scan_step:
  "fold (scan_step md5 W) items acc =
     fold (\<lambda>(k, v). AList.update k v)
       (map (stored md5) (filter (\<lambda>(p, x). last p \<notin> set (ignore_files W)) items)) acc"
proof (induction items arbitrary: acc)
  case Nil
  show ?case by simp
next
  case (Cons e items)
  obtain p x where e: "e = (p, x)" by (cases e)
  show ?case
    using Cons.IH by (simp add: e scan_step_def stored_def)
qed

lemma fold_scan_ext:
  "fold (scan_ext md5 W t) exts acc =
     fold (scan_step md5 W) (concat (map (\<lambda>ext. rglob ext t) exts)) acc"
  by (induction exts arbitrary: acc) (simp_all add: scan_ext_def)

lemma get_all_watched_files_fold:
  "get_all_watched_files md5 W t =
     fold (\<lambda>(k, v). AList.update k v) (map (stored md5) (scanned W t)) []"
  by (simp add: get_all_watched_files_def fold_scan_ext fold_scan_step scanned_def)

lemma scanned_mem:
  assumes "wf_node t"
  shows "(p, x) \<in> set (scanned W t) \<longleftrightarrow> p \<noteq> [] \<and> resolve t p = Some x \<and> watched W p"
proof -
  have "(p, x) \<in> set (walk [] t) \<longleftrightarrow> p \<noteq> [] \<and> resolve t p = Some x"
    using walk_mem(1) [OF assms, of p x "[]"] by auto
  then show ?thesis
    by (auto simp: scanned_def rglob_def watched_def)
qed


lemma snapshot_lookup:
  assumes "wf_node t"
  shows "map_of (get_all_watched_files md5 W t) k = Some v \<longleftrightarrow>
         (\<exists>p x. p \<noteq> [] \<and> resolve t p = Some x \<and> watched W p
                \<and> k = path_str p \<and> v = get_file_hash md5 x)"
proof -
  let ?l = "map (stored md5) (scanned W t)"
  have m: "map_of (get_all_watched_files md5 W t) = map_of (rev ?l)"
    by (simp add: get_all_watched_files_fold fold_update_map_of)
  have mem: "(k', v') \<in> set ?l \<longleftrightarrow>
       (\<exists>p x. p \<noteq> [] \<and> resolve t p = Some x \<and> watched W p
                \<and> k' = path_str p \<and> v' = get_file_hash md5 x)" for k' v'
  proof -
    have "(k', v') \<in> set ?l \<longleftrightarrow> (\<exists>p x. (p, x) \<in> set (scanned W t) \<and> (k', v') = stored md5 (p, x))"
      by auto
    then show ?thesis
      unfolding scanned_mem [OF assms] stored_def by auto
  qed
  have func: "v1 = v2" if "(k', v1) \<in> set ?l" and "(k', v2) \<in> set ?l" for k' v1 v2
  proof -
    from that obtain p x q y where
      p: "p \<noteq> []" "resolve t p = Some x" "k' = path_str p" "v1 = get_file_hash md5 x"
      and q: "q \<noteq> []" "resolve t q = Some y" "k' = path_str q" "v2 = get_file_hash md5 y"
      unfolding mem by blast
    have "p = q"
      using path_str_inj [of p q] resolve_valid [OF assms p(2)] resolve_valid [OF assms q(2)]
        p(1,3) q(1,3) by simp
    with p q show ?thesis by simp
  qed
  show ?thesis
  proof
    assume "map_of (get_all_watched_files md5 W t) k = Some v"
    then have "(k, v) \<in> set (rev ?l)"
      unfolding m by (rule map_of_SomeD)
    then have "(k, v) \<in> set ?l" by simp
    then show "\<exists>p x. p \<noteq> [] \<and> resolve t p = Some x \<and> watched W p
                \<and> k = path_str p \<and> v = get_file_hash md5 x"
      unfolding mem .
  next
    assume "\<exists>p x. p \<noteq> [] \<and> resolve t p = Some x \<and> watched W p
                \<and> k = path_str p \<and> v = get_file_hash md5 x"
    then have in_l: "(k, v) \<in> set ?l"
      unfolding mem .
    show "map_of (get_all_watched_files md5 W t) k = Some v"
      unfolding m
      using func [OF _ in_l] in_l by (rule map_of_rev_functional)
  qed
qed

lemma snapshot_keys:
  assumes "wf_node t"
  shows "fst ` set (get_all_watched_files md5 W t) =
         {path_str p | p. p \<noteq> [] \<and> resolve t p \<noteq> None \<and> watched W p}"
proof (rule set_eqI)
  fix k
  have "k \<in> fst ` set (get_all_watched_files md5 W t) \<longleftrightarrow>
        (\<exists>v. map_of (get_all_watched_files md5 W t) k = Some v)"
    using dom_map_of_conv_image_fst [of "get_all_watched_files md5 W t"] by (auto simp: dom_def)
  also have "\<dots> \<longleftrightarrow> (\<exists>p x. p \<noteq> [] \<and> resolve t p = Some x \<and> watched W p \<and> k = path_str p)"
    unfolding snapshot_lookup [OF assms] by blast
  also have "\<dots> \<longleftrightarrow> k \<in> {path_str p | p. p \<noteq> [] \<and> resolve t p \<noteq> None \<and> watched W p}"
    by auto
  finally show "k \<in> fst ` set (get_all_watched_files md5 W t) \<longleftrightarrow>
     k \<in> {path_str p | p. p \<noteq> [] \<and> resolve t p \<noteq> None \<and> watched W p}" .
qed

text \<open>The equations that evaluate a scan of a given tree.\<close>

lemmas scan_eval = get_all_watched_files_def scan_ext_def scan_step_def rglob_def
  suffix_to_prefix get_file_hash_def script_watch_set_def WATCH_EXTENSIONS_def IGNORE_FILES_def

subsection \<open>Files that cannot be read\<close>

text \<open>
  Claim C4. In a well-formed tree, a watched file whose read raises (with any error) is
  stored with the value \<^verbatim>\<open>None\<close>, and the scan still stores every watched entry of the tree
  with the value that \<^verbatim>\<open>get_file_hash\<close> gives for it. \<^verbatim>\<open>get_all_watched_files\<close> has no
  failing branch: the handler in \<^verbatim>\<open>get_file_hash\<close> catches every exception of the read.
\<close>

theorem unreadable_file_recorded_absent:
  assumes "wf_node t" and "p \<noteq> []" and "resolve t p = Some (File (Inl e))" and "watched W p"
  shows "map_of (get_all_watched_files md5 W t) (path_str p) = Some None
       \<and> (\<forall>q x. q \<noteq> [] \<and> resolve t q = Some x \<and> watched W q \<longrightarrow>
             map_of (get_all_watched_files md5 W t) (path_str q) = Some (get_file_hash md5 x))"
proof -
  have "get_file_hash md5 (File (Inl e)) = None"
    by (simp add: get_file_hash_def)
  then show ?thesis
    unfolding snapshot_lookup [OF assms(1)] using assms(2-4) by metis
qed

theorem unreadable_file_recorded_absent_witness:
  "wf_node (Dir [(''a.js'', File (Inl PermissionError)), (''b.css'', File (Inr [0x78]))])
   \<and> resolve (Dir [(''a.js'', File (Inl PermissionError)), (''b.css'', File (Inr [0x78]))]) [''a.js'']
       = Some (File (Inl PermissionError))
   \<and> watched script_watch_set [''a.js'']
   \<and> map_of (get_all_watched_files (\<lambda>content. ''9dd4e461268c8034f5c8564e155c67a6'') script_watch_set
         (Dir [(''a.js'', File (Inl PermissionError)), (''b.css'', File (Inr [0x78]))])) ''a.js''
       = Some None
   \<and> map_of (get_all_watched_files (\<lambda>content. ''9dd4e461268c8034f5c8564e155c67a6'') script_watch_set
         (Dir [(''a.js'', File (Inl PermissionError)), (''b.css'', File (Inr [0x78]))])) ''b.css''
       = Some (Some ''9dd4e461268c8034f5c8564e155c67a6'')"
  using unreadable_file_recorded_absent [of
      "Dir [(''a.js'', File (Inl PermissionError)), (''b.css'', File (Inr [0x78]))]"
      "[''a.js'']" PermissionError script_watch_set "\<lambda>content. ''9dd4e461268c8034f5c8564e155c67a6''"]
  by (simp add: valid_name_def watched_def scan_eval)

subsection \<open>Scanning an unchanged directory again\<close>

lemma read_results_mem:
  assumes "wf_node t"
  shows "(p, r) \<in> read_results t \<longleftrightarrow> (\<exists>x. p \<noteq> [] \<and> resolve t p = Some x \<and> read_bytes x = r)"
proof -
  have "(p, r) \<in> read_results t \<longleftrightarrow> (\<exists>x. (p, x) \<in> set (walk [] t) \<and> read_bytes x = r)"
    unfolding read_results_def by force
  then show ?thesis
    using walk_mem(1) [OF assms, of p _ "[]"] by simp
qed

lemma snapshot_lookup_reads:
  assumes "wf_node t"
  shows "map_of (get_all_watched_files md5 W t) k = Some v \<longleftrightarrow>
         (\<exists>p r. (p, r) \<in> read_results t \<and> watched W p \<and> k = path_str p
                \<and> v = (case r of Inr content \<Rightarrow> Some (md5 content) | Inl e \<Rightarrow> None))"
  unfolding snapshot_lookup [OF assms] read_results_mem [OF assms] get_file_hash_def
  by blast

text \<open>
  Claim C8. \<^verbatim>\<open>get_all_watched_files\<close> is a function of the directory tree, so two scans
  of the same tree return the same dictionary. More is true: two scans of the same
  directory state return the same keys with the same values even when the operating
  system lists the entries in a different order the second time.
\<close>

theorem snapshot_idempotent:
  assumes "wf_node t" and "wf_node t'" and "read_results t = read_results t'"
  shows "map_of (get_all_watched_files md5 W t) = map_of (get_all_watched_files md5 W t')
       \<and> fst ` set (get_all_watched_files md5 W t) = fst ` set (get_all_watched_files md5 W t')"
proof -
  have same: "map_of (get_all_watched_files md5 W t) k = Some v \<longleftrightarrow>
        map_of (get_all_watched_files md5 W t') k = Some v" for k v
    unfolding snapshot_lookup_reads [OF assms(1)] snapshot_lookup_reads [OF assms(2)] assms(3) ..
  have maps: "map_of (get_all_watched_files md5 W t) = map_of (get_all_watched_files md5 W t')"
  proof
    fix k
    show "map_of (get_all_watched_files md5 W t) k = map_of (get_all_watched_files md5 W t') k"
    proof (cases "map_of (get_all_watched_files md5 W t) k")
      case None
      show ?thesis
      proof (cases "map_of (get_all_watched_files md5 W t') k")
        case (Some v)
        then show ?thesis using same [of k v] None by simp
      qed (simp add: None)
    next
      case (Some v)
      then show ?thesis using same [of k v] by simp
    qed
  qed
  then have "dom (map_of (get_all_watched_files md5 W t))
             = dom (map_of (get_all_watched_files md5 W t'))"
    by simp
  then show ?thesis
    using maps unfolding dom_map_of_conv_image_fst by simp
qed

theorem snapshot_idempotent_witness:
  "wf_node (Dir [(''a.js'', File (Inr [0x78])), (''css'', Dir [(''b.css'', File (Inl PermissionError))])])
   \<and> wf_node (Dir [(''css'', Dir [(''b.css'', File (Inl PermissionError))]), (''a.js'', File (Inr [0x78]))])
   \<and> read_results (Dir [(''a.js'', File (Inr [0x78])), (''css'', Dir [(''b.css'', File (Inl PermissionError))])])
     = read_results (Dir [(''css'', Dir [(''b.css'', File (Inl PermissionError))]), (''a.js'', File (Inr [0x78]))])
   \<and> map_of (get_all_watched_files (\<lambda>content. ''9dd4e461268c8034f5c8564e155c67a6'') script_watch_set
        (Dir [(''a.js'', File (Inr [0x78])), (''css'', Dir [(''b.css'', File (Inl PermissionError))])]))
     = map_of (get_all_watched_files (\<lambda>content. ''9dd4e461268c8034f5c8564e155c67a6'') script_watch_set
        (Dir [(''css'', Dir [(''b.css'', File (Inl PermissionError))]), (''a.js'', File (Inr [0x78]))]))
   \<and> get_all_watched_files (\<lambda>content. ''9dd4e461268c8034f5c8564e155c67a6'') script_watch_set
        (Dir [(''a.js'', File (Inr [0x78])), (''css'', Dir [(''b.css'', File (Inl PermissionError))])])
     = [(''a.js'', Some ''9dd4e461268c8034f5c8564e155c67a6''), (''css/b.css'', None)]"
proof -
  let ?t = "Dir [(''a.js'', File (Inr [0x78])), (''css'', Dir [(''b.css'', File (Inl PermissionError))])]"
  let ?t' = "Dir [(''css'', Dir [(''b.css'', File (Inl PermissionError))]), (''a.js'', File (Inr [0x78]))]"
  have w: "wf_node ?t" and w': "wf_node ?t'"
    by (simp_all add: valid_name_def)
  have r: "read_results ?t = read_results ?t'"
    by (simp add: read_results_def insert_commute)
  have v: "get_all_watched_files (\<lambda>content. ''9dd4e461268c8034f5c8564e155c67a6'') script_watch_set ?t
     = [(''a.js'', Some ''9dd4e461268c8034f5c8564e155c67a6''), (''css/b.css'', None)]"
    by (simp add: scan_eval)
  show ?thesis
    using snapshot_idempotent [OF w w' r] w w' r v by blast
qed

subsection \<open>Directories whose name ends with a watched extension\<close>

text \<open>
  Claim C1 says that the keys of a snapshot are the paths of the watched files and
  nothing else. By \<open>snapshot_keys\<close> the keys are the paths of all watched entries:
  no watched file is missing, and no ignored name or unwatched extension
  appears. But \<^verbatim>\<open>rglob\<close> also yields directories, and the scan has no \<^verbatim>\<open>is_file()\<close> test:
  a directory named \<^verbatim>\<open>chart.js\<close> becomes a key, with the value \<^verbatim>\<open>None\<close>, although the
  only file below the root is \<^verbatim>\<open>popup.js\<close>.
\<close>

theorem directory_stored_as_file:
  "get_all_watched_files (\<lambda>content. ''9dd4e461268c8034f5c8564e155c67a6'') script_watch_set
     (Dir [(''popup.js'', File (Inr [0x78])), (''chart.js'', Dir [])])
   = [(''popup.js'', Some ''9dd4e461268c8034f5c8564e155c67a6''), (''chart.js'', None)]
   \<and> map fst (filter (\<lambda>(p, x). is_file x)
        (walk [] (Dir [(''popup.js'', File (Inr [0x78])), (''chart.js'', Dir [])])))
     = [[''popup.js'']]"
  by (simp add: scan_eval)

section \<open>Properties of the loop\<close>

subsection \<open>Running the statements of a pass\<close>

lemma exec_store:
  "exec enc pending [StoreHashes d] st =
     (case pending of
        None \<Rightarrow> (st\<lparr>file_hashes := d\<rparr>, None)
      | Some 0 \<Rightarrow> (st, Some KeyboardInterrupt)
      | Some (Suc n) \<Rightarrow> (st\<lparr>file_hashes := d\<rparr>, Some KeyboardInterrupt))"
  by (simp split: option.split nat.split)

lemma exec_Print:
  "exec enc pending (Print l # cs) st =
     (if pending = Some 0 then (st, Some KeyboardInterrupt)
      else if enc l then exec enc (map_option (\<lambda>n. n - 1) pending) cs (st\<lparr>stdout := stdout st @ [l]\<rparr>)
      else (st, Some UnicodeEncodeError))"
  by (simp add: py_print_def)

text \<open>All the prints of a pass go through when each text can be encoded and the interrupt
  does not arrive before the last of them.\<close>

lemma exec_prints:
  assumes "\<forall>l \<in> set ls. enc l" and "pending = None \<or> (\<exists>n. pending = Some n \<and> length ls \<le> n)"
  shows "exec enc pending (map Print ls @ rest) st =
         exec enc (map_option (\<lambda>n. n - length ls) pending) rest (st\<lparr>stdout := stdout st @ ls\<rparr>)"
  using assms
proof (induction ls arbitrary: pending st)
  case Nil
  show ?case by (cases pending) simp_all
next
  case (Cons l ls)
  let ?p = "map_option (\<lambda>n. n - 1) pending"
  have p0: "pending \<noteq> Some 0"
    using Cons.prems(2) by auto
  have p': "?p = None \<or> (\<exists>n. ?p = Some n \<and> length ls \<le> n)"
    using Cons.prems(2) by auto
  have "exec enc pending (map Print (l # ls) @ rest) st =
        exec enc ?p (map Print ls @ rest) (st\<lparr>stdout := stdout st @ [l]\<rparr>)"
    using Cons.prems(1) p0 by (simp add: exec_Print del: exec.simps)
  also have "\<dots> = exec enc (map_option (\<lambda>n. n - length ls) ?p) rest
                     (st\<lparr>stdout := stdout st @ [l]\<rparr>\<lparr>stdout := stdout (st\<lparr>stdout := stdout st @ [l]\<rparr>) @ ls\<rparr>)"
    using Cons.IH [OF _ p'] Cons.prems(1) by simp
  also have "\<dots> = exec enc (map_option (\<lambda>n. n - length (l # ls)) pending) rest
                     (st\<lparr>stdout := stdout st @ l # ls\<rparr>)"
    by (cases pending) simp_all
  finally show ?case .
qed

text \<open>Otherwise the pass is cut: only some of its first texts are printed, and the
  statements that follow the prints are not reached.\<close>

lemma exec_prints_cut:
  assumes "\<not> ((\<forall>l \<in> set ls. enc l) \<and> (pending = None \<or> (\<exists>n. pending = Some n \<and> length ls \<le> n)))"
  shows "\<exists>j e. j < length ls \<and>
           exec enc pending (map Print ls @ rest) st = (st\<lparr>stdout := stdout st @ take j ls\<rparr>, Some e)"
  using assms
proof (induction ls arbitrary: pending st)
  case Nil
  then show ?case by (cases pending) simp_all
next
  case (Cons l ls)
  let ?p = "map_option (\<lambda>n. n - 1) pending"
  let ?st = "st\<lparr>stdout := stdout st @ [l]\<rparr>"
  show ?case
  proof (cases "pending = Some 0 \<or> \<not> enc l")
    case True
    then have "\<exists>e. exec enc pending (map Print (l # ls) @ rest) st = (st\<lparr>stdout := stdout st @ take 0 (l # ls)\<rparr>, Some e)"
      by (auto simp add: exec_Print simp del: exec.simps)
    then show ?thesis by (metis length_greater_0_conv list.discI)
  next
    case False
    then have run: "exec enc pending (map Print (l # ls) @ rest) st = exec enc ?p (map Print ls @ rest) ?st"
      by (simp add: exec_Print del: exec.simps)
    have "\<not> ((\<forall>l \<in> set ls. enc l) \<and> (?p = None \<or> (\<exists>n. ?p = Some n \<and> length ls \<le> n)))"
      using Cons.prems False by (cases pending) auto
    from Cons.IH [OF this] obtain j e where j: "j < length ls"
      and "exec enc ?p (map Print ls @ rest) ?st = (?st\<lparr>stdout := stdout ?st @ take j ls\<rparr>, Some e)"
      by blast
    then have "exec enc pending (map Print (l # ls) @ rest) st
               = (st\<lparr>stdout := stdout st @ take (Suc j) (l # ls)\<rparr>, Some e)"
      using run by simp
    moreover have "Suc j < length (l # ls)"
      using j by simp
    ultimately show ?thesis by blast
  qed
qed

lemma report_prints:
  "report changed d =
     map Print (detected_line # map bullet_line changed @ reload_lines) @ [StoreHashes d]"
  by (simp add: report_def print_reload_instructions_def comp_def)

lemma exec_report_complete:
  assumes "\<forall>l \<in> set (detected_line # map bullet_line changed @ reload_lines). enc l"
  shows "exec enc None (report changed d) st =
         (st\<lparr>stdout := stdout st @ detected_line # map bullet_line changed @ reload_lines,
             file_hashes := d\<rparr>, None)"
  unfolding report_prints
  using exec_prints [OF assms, of None "[StoreHashes d]" st]
  by (simp del: exec.simps add: exec_store)

lemma exec_report_any:
  fixes changed d enc pending st
  defines "ls \<equiv> detected_line # map bullet_line changed @ reload_lines"
  defines "r \<equiv> exec enc pending (report changed d) st"
  shows "(\<exists>j. stdout (fst r) = stdout st @ take j ls)
       \<and> (file_hashes (fst r) = file_hashes st
           \<or> (file_hashes (fst r) = d \<and> stdout (fst r) = stdout st @ ls))"
proof (cases "(\<forall>l \<in> set ls. enc l) \<and> (pending = None \<or> (\<exists>n. pending = Some n \<and> length ls \<le> n))")
  case True
  then have "r = exec enc (map_option (\<lambda>n. n - length ls) pending) [StoreHashes d]
                   (st\<lparr>stdout := stdout st @ ls\<rparr>)"
    unfolding r_def report_prints ls_def [symmetric]
    using exec_prints [of ls enc pending "[StoreHashes d]" st] by blast
  then have full: "stdout (fst r) = stdout st @ ls"
    and "file_hashes (fst r) = file_hashes st \<or> file_hashes (fst r) = d"
    by (simp_all add: exec_store del: exec.simps split: option.split nat.split)
  moreover have "\<exists>j. stdout (fst r) = stdout st @ take j ls"
    using full by (intro exI [of _ "length ls"]) simp
  ultimately show ?thesis by blast
next
  case False
  from exec_prints_cut [OF this, of "[StoreHashes d]" st]
  obtain j e where "r = (st\<lparr>stdout := stdout st @ take j ls\<rparr>, Some e)"
    unfolding r_def report_prints ls_def [symmetric] by blast
  then have "stdout (fst r) = stdout st @ take j ls" and "file_hashes (fst r) = file_hashes st"
    by simp_all
  then show ?thesis by blast
qed






subsection \<open>Report and update\<close>

text \<open>The texts of a report, written out.\<close>

lemma report_lines:
  "detected_line # map bullet_line (changed_files previous current) @ reload_lines =
   ([CHR 0xF0, CHR 0x9F, CHR 0x94, CHR 0x94] @ '' Detected changes in:'')
     # map (\<lambda>p. ''   '' @ [CHR 0xE2, CHR 0x80, CHR 0xA2] @ '' '' @ p)
         (map fst (filter (\<lambda>(p, h). map_of previous p \<noteq> Some h) current))
     @ map (\<lambda>p. ''   '' @ [CHR 0xE2, CHR 0x80, CHR 0xA2] @ '' '' @ p @ '' (deleted)'')
         (filter (\<lambda>p. p \<notin> fst ` set current) (map fst previous))
     @ [CHR 0x0A # replicate 50 (CHR ''=''),
        [CHR 0xF0, CHR 0x9F, CHR 0x94, CHR 0x84] @ '' FILES CHANGED - RELOAD NEEDED'',
        replicate 50 (CHR ''=''),
        [CHR 0x0A, CHR 0xF0, CHR 0x9F, CHR 0x93, CHR 0x8C] @ '' To reload your extension:'',
        ''   1. Open chrome://extensions'',
        ''   2. Click the reload icon ('' @ [CHR 0xF0, CHR 0x9F, CHR 0x94, CHR 0x84] @ '') for ''
           @ [CHR 0x27] @ ''Klue'' @ [CHR 0x27],
        [CHR 0x0A, CHR 0xF0, CHR 0x9F, CHR 0x92, CHR 0xA1]
           @ '' TIP: Keep the extensions page open in a pinned tab'',
        ''   for quick reloading during development'',
        CHR 0x0A # replicate 50 (CHR ''-'') @ [CHR 0x0A]]"
  by (simp add: changed_files_split detected_line_def bullet_line_def deleted_label_def
      reload_lines_def comp_def)

lemma utf8_ascii_run: "b < 0x80 \<Longrightarrow> ((\<lambda>q. utf8_step q b) ^^ n) Boundary = Boundary"
  by (induction n) simp_all

text \<open>The equations that evaluate a pass on given data.\<close>

lemmas pass_eval = cycle_def Let_def changed_files_split report_def print_reload_instructions_def
  py_print_def utf8_encodable_def utf8_ascii_run detected_line_def bullet_line_def
  deleted_label_def reload_lines_def farewell_line_def toy_md5_def

text \<open>
  Claim C6 says that every pass with a non-empty change list prints the whole report and
  then stores the current dictionary, and that a pass with an empty change list prints
  nothing. The second part holds. The first holds for a pass that runs to its end, but a
  pass can be cut short: \<^verbatim>\<open>print\<close> raises for a path that the terminal cannot encode, and
  the interrupt signal can arrive between two statements. The theorem, for one pass:
  \<^item> with an empty change list the state is unchanged;
  \<^item> with a non-empty change list, no interrupt during the pass and every line encodable,
    the pass prints the heading, one bullet line for each modified path and one for each
    deleted path (the latter with \<^verbatim>\<open>(deleted)\<close> appended), then the fixed reload
    instructions, and stores the current dictionary;
  \<^item> in every case what the pass has printed is a leading part of that report, and the
    current dictionary is stored only after the whole report has been printed.
\<close>

theorem cycle_report:
  "(let previous = file_hashes st;
        current = get_all_watched_files md5 W fs;
        lines =
          ([CHR 0xF0, CHR 0x9F, CHR 0x94, CHR 0x94] @ '' Detected changes in:'')
          # map (\<lambda>p. ''   '' @ [CHR 0xE2, CHR 0x80, CHR 0xA2] @ '' '' @ p)
              (map fst (filter (\<lambda>(p, h). map_of previous p \<noteq> Some h) current))
          @ map (\<lambda>p. ''   '' @ [CHR 0xE2, CHR 0x80, CHR 0xA2] @ '' '' @ p @ '' (deleted)'')
              (filter (\<lambda>p. p \<notin> fst ` set current) (map fst previous))
          @ [CHR 0x0A # replicate 50 (CHR ''=''),
             [CHR 0xF0, CHR 0x9F, CHR 0x94, CHR 0x84] @ '' FILES CHANGED - RELOAD NEEDED'',
             replicate 50 (CHR ''=''),
             [CHR 0x0A, CHR 0xF0, CHR 0x9F, CHR 0x93, CHR 0x8C] @ '' To reload your extension:'',
             ''   1. Open chrome://extensions'',
             ''   2. Click the reload icon ('' @ [CHR 0xF0, CHR 0x9F, CHR 0x94, CHR 0x84] @ '') for ''
                @ [CHR 0x27] @ ''Klue'' @ [CHR 0x27],
             [CHR 0x0A, CHR 0xF0, CHR 0x9F, CHR 0x92, CHR 0xA1]
                @ '' TIP: Keep the extensions page open in a pinned tab'',
             ''   for quick reloading during development'',
             CHR 0x0A # replicate 50 (CHR ''-'') @ [CHR 0x0A]];
        pass = cycle encodable md5 W fs pending st
    in (changed_files previous current = [] \<longrightarrow> fst pass = st)
     \<and> (changed_files previous current \<noteq> [] \<longrightarrow>
          (pending = None \<and> (\<forall>l \<in> set lines. encodable l) \<longrightarrow>
             pass = (st\<lparr>stdout := stdout st @ lines, file_hashes := current\<rparr>, None))
          \<and> (\<exists>j. stdout (fst pass) = stdout st @ take j lines)
          \<and> (file_hashes (fst pass) = file_hashes st
              \<or> (file_hashes (fst pass) = current \<and> stdout (fst pass) = stdout st @ lines))))"
proof -
  let ?prev = "file_hashes st" and ?cur = "get_all_watched_files md5 W fs"
  let ?ls = "detected_line # map bullet_line (changed_files ?prev ?cur) @ reload_lines"
  let ?pass = "cycle encodable md5 W fs pending st"
  have unchanged: "fst ?pass = st" if "changed_files ?prev ?cur = []"
    using that by (cases pending) (simp_all add: cycle_def Let_def)
  have pass: "?pass = exec encodable pending (report (changed_files ?prev ?cur) ?cur) st"
    if "changed_files ?prev ?cur \<noteq> []"
    using that by (simp add: cycle_def Let_def)
  have complete: "?pass = (st\<lparr>stdout := stdout st @ ?ls, file_hashes := ?cur\<rparr>, None)"
    if "changed_files ?prev ?cur \<noteq> []" and "pending = None" and "\<forall>l \<in> set ?ls. encodable l"
    using exec_report_complete [OF that(3), of ?cur st] that(2) pass [OF that(1)] by simp
  have any: "(\<exists>j. stdout (fst ?pass) = stdout st @ take j ?ls)
       \<and> (file_hashes (fst ?pass) = file_hashes st
           \<or> (file_hashes (fst ?pass) = ?cur \<and> stdout (fst ?pass) = stdout st @ ?ls))"
    if "changed_files ?prev ?cur \<noteq> []"
    using exec_report_any [of encodable pending "changed_files ?prev ?cur" ?cur st] pass [OF that]
    by simp
  show ?thesis
    unfolding Let_def report_lines [symmetric]
    using unchanged complete any by blast
qed

theorem cycle_report_witness:
  "(changed_files (file_hashes \<lparr>file_hashes = [(''c.html'', Some ''0cc175b9c0f1b6a831c399e269772661'')], stdout = []\<rparr>)
      (get_all_watched_files toy_md5 script_watch_set (Dir [(''a.js'', File (Inr [0x78]))])) \<noteq> []
    \<and> list_all utf8_encodable
          ([detected_line, bullet_line ''a.js'', bullet_line ''c.html (deleted)''] @ reload_lines)
    \<and> cycle utf8_encodable toy_md5 script_watch_set (Dir [(''a.js'', File (Inr [0x78]))]) None
         \<lparr>file_hashes = [(''c.html'', Some ''0cc175b9c0f1b6a831c399e269772661'')], stdout = []\<rparr>
       = (\<lparr>file_hashes = [(''a.js'', Some ''9dd4e461268c8034f5c8564e155c67a6'')],
           stdout = [detected_line, bullet_line ''a.js'', bullet_line ''c.html (deleted)''] @ reload_lines\<rparr>,
          None))
   \<and> (changed_files (file_hashes \<lparr>file_hashes = [(''a.js'', Some ''9dd4e461268c8034f5c8564e155c67a6'')], stdout = []\<rparr>)
      (get_all_watched_files toy_md5 script_watch_set (Dir [(''a.js'', File (Inr [0x78]))])) = []
    \<and> fst (cycle utf8_encodable toy_md5 script_watch_set (Dir [(''a.js'', File (Inr [0x78]))]) None
         \<lparr>file_hashes = [(''a.js'', Some ''9dd4e461268c8034f5c8564e155c67a6'')], stdout = []\<rparr>)
       = \<lparr>file_hashes = [(''a.js'', Some ''9dd4e461268c8034f5c8564e155c67a6'')], stdout = []\<rparr>)"
proof -
  let ?fs = "Dir [(''a.js'', File (Inr [0x78]))]"
  let ?st0 = "\<lparr>file_hashes = [(''c.html'', Some ''0cc175b9c0f1b6a831c399e269772661'')], stdout = []\<rparr>"
  let ?st1 = "\<lparr>file_hashes = [(''a.js'', Some ''9dd4e461268c8034f5c8564e155c67a6'')], stdout = []\<rparr>"
  have scan: "get_all_watched_files toy_md5 script_watch_set ?fs
              = [(''a.js'', Some ''9dd4e461268c8034f5c8564e155c67a6'')]"
    by (simp add: scan_eval toy_md5_def)
  have enc: "\<forall>l \<in> set ([detected_line, bullet_line ''a.js'', bullet_line ''c.html (deleted)''] @ reload_lines).
          utf8_encodable l"
    by (simp add: utf8_encodable_def utf8_ascii_run detected_line_def bullet_line_def
        reload_lines_def)
  have ch0: "changed_files [(''c.html'', Some ''0cc175b9c0f1b6a831c399e269772661'')]
               [(''a.js'', Some ''9dd4e461268c8034f5c8564e155c67a6'')]
             = [''a.js'', ''c.html (deleted)'']"
    by (simp add: changed_files_split deleted_label_def)
  have ch1: "changed_files [(''a.js'', Some ''9dd4e461268c8034f5c8564e155c67a6'')]
               [(''a.js'', Some ''9dd4e461268c8034f5c8564e155c67a6'')] = []"
    by (simp add: changed_files_split)
  show ?thesis
    using cycle_report [of ?st0 toy_md5 script_watch_set ?fs utf8_encodable None,
        unfolded Let_def report_lines [symmetric]]
      cycle_report [of ?st1 toy_md5 script_watch_set ?fs utf8_encodable None,
        unfolded Let_def report_lines [symmetric]]
      enc
    by (simp add: scan ch0 ch1 list_all_iff)
qed

text \<open>
  The claim as stated fails for a file whose name is the byte \<^verbatim>\<open>FF\<close> followed by \<^verbatim>\<open>.js\<close>, on a
  terminal with strict UTF-8: the change list is not empty, but the pass prints only the
  heading, raises \<^verbatim>\<open>UnicodeEncodeError\<close> at the bullet line, and leaves \<^verbatim>\<open>file_hashes\<close> as
  it was.
\<close>

theorem cycle_report_counterexample:
  "changed_files (file_hashes \<lparr>file_hashes = [], stdout = []\<rparr>)
     (get_all_watched_files toy_md5 script_watch_set (Dir [([CHR 0xFF] @ ''.js'', File (Inr [0x78]))]))
     = [[CHR 0xFF] @ ''.js'']
   \<and> get_all_watched_files toy_md5 script_watch_set (Dir [([CHR 0xFF] @ ''.js'', File (Inr [0x78]))])
     = [([CHR 0xFF] @ ''.js'', Some ''9dd4e461268c8034f5c8564e155c67a6'')]
   \<and> cycle utf8_encodable toy_md5 script_watch_set (Dir [([CHR 0xFF] @ ''.js'', File (Inr [0x78]))])
       None \<lparr>file_hashes = [], stdout = []\<rparr>
     = (\<lparr>file_hashes = [],
         stdout = [[CHR 0xF0, CHR 0x9F, CHR 0x94, CHR 0x94] @ '' Detected changes in:'']\<rparr>,
        Some UnicodeEncodeError)"
  by (simp add: scan_eval pass_eval)

subsection \<open>Leaving the loop\<close>









subsection \<open>Replacing the stored snapshot only after a report\<close>




lemma report_texts:
  "Print s \<in> set (report changed d) \<longleftrightarrow> s \<in> set (detected_line # map bullet_line changed @ reload_lines)"
  unfolding report_prints by auto







end
